theory Spec2Isabelle
  imports Main
begin

section \<open>ElementRef: wrapping an element and reading its attributes\<close>

text \<open>
  The part of a DOM node that \<open>ElementRef\<close> looks at: its \<open>nodeType\<close> and its
  attributes. \<open>getAttribute\<close> answers \<open>null\<close> (here \<open>None\<close>) for an attribute that
  is not set.
\<close>

record node =
  nodeType :: nat
  attributes :: "string \<rightharpoonup> string"

definition ELEMENT_NODE :: nat where
  "ELEMENT_NODE = 1"


text \<open>
  Every \<open>throw new Error(...)\<close> of the source is one constructor, carrying the value
  the message interpolates. \<open>Thrown\<close> is an exception raised by a serializer the
  caller passed in.
\<close>

datatype error =
  NotAnElement nat
  | AttributeMissing string
  | Thrown string

record ElementRef =
  native :: node

text \<open>\<open>ElementRef.from\<close>: the private constructor behind a check of the node type.\<close>

definition ElementRef_from :: "node \<Rightarrow> error + ElementRef" where
  "ElementRef_from n =
     (if nodeType n \<noteq> ELEMENT_NODE then Inl (NotAnElement (nodeType n))
      else Inr \<lparr>native = n\<rparr>)"











definition div_tweet :: node where
  "div_tweet = \<lparr>nodeType = 1, attributes = [''tweet-id'' \<mapsto> ''abc'']\<rparr>"

definition text_node :: node where
  "text_node = \<lparr>nodeType = 3, attributes = Map.empty\<rparr>"

section \<open>The host's timers and MacrotaskScheduler\<close>

text \<open>
  \<open>setTimeout\<close> and \<open>clearInterval\<close> belong to the platform. The host keeps one
  table of active timers for \<open>setTimeout\<close> and \<open>setInterval\<close> alike, which is why
  \<open>clearInterval\<close> clears a handle that \<open>setTimeout\<close> returned. A timer registered
  without a delay becomes a task of its own; the host runs these tasks one per turn, in
  the order of registration, and never inside the call that registered them. An action
  is a callback \<open>() => void\<close>: it transforms the state \<open>user\<close> that the callbacks
  share. \<open>ran\<close> records the handles of the timer tasks the host has run.
\<close>

type_synonym 'u Action = "'u \<Rightarrow> 'u"

record 'u host =
  timers :: "(nat \<times> 'u Action) list"
  next_handle :: nat
  ran :: "nat list"
  user :: 'u
  singletonScheduler :: "nat option"
  next_ref :: nat

definition setTimeout :: "'u Action \<Rightarrow> 'u host \<Rightarrow> nat \<times> 'u host" where
  "setTimeout handler h =
     (next_handle h,
      h\<lparr>timers := timers h @ [(next_handle h, handler)], next_handle := Suc (next_handle h)\<rparr>)"

definition clearInterval :: "nat \<Rightarrow> 'u host \<Rightarrow> 'u host" where
  "clearInterval handle h = h\<lparr>timers := filter (\<lambda>t. fst t \<noteq> handle) (timers h)\<rparr>"

text \<open>
  One turn of the host: it takes the oldest active timer out of the table
  (\<open>dequeue\<close>) and calls its handler (\<open>invoke\<close>).
\<close>

definition dequeue :: "'u host \<Rightarrow> (nat \<times> 'u Action) option \<times> 'u host" where
  "dequeue h = (case timers h of [] \<Rightarrow> (None, h) | t # rest \<Rightarrow> (Some t, h\<lparr>timers := rest\<rparr>))"

definition invoke :: "nat \<times> 'u Action \<Rightarrow> 'u host \<Rightarrow> 'u host" where
  "invoke t h = h\<lparr>ran := ran h @ [fst t], user := snd t (user h)\<rparr>"

definition macrotask :: "'u host \<Rightarrow> 'u host" where
  "macrotask h = (case dequeue h of (None, h') \<Rightarrow> h' | (Some t, h') \<Rightarrow> invoke t h')"

text \<open>
  \<open>MacrotaskScheduler.from\<close>: the module variable \<open>singletonScheduler\<close> starts
  \<open>undefined\<close>; \<open>new MacrotaskScheduler()\<close> allocates the next object reference.
\<close>

definition MacrotaskScheduler_from :: "'u host \<Rightarrow> nat \<times> 'u host" where
  "MacrotaskScheduler_from h =
     (let h' = (if singletonScheduler h = None
                then h\<lparr>singletonScheduler := Some (next_ref h), next_ref := Suc (next_ref h)\<rparr>
                else h)
      in (the (singletonScheduler h'), h'))"

text \<open>
  \<open>MacrotaskScheduler.schedule\<close> hands the closure \<open>() => { callback(); }\<close> to
  \<open>setTimeout\<close> and returns the closure \<open>() => { clearInterval(handle); }\<close>.
\<close>

definition schedule :: "'u Action \<Rightarrow> 'u host \<Rightarrow> ('u host \<Rightarrow> 'u host) \<times> 'u host" where
  "schedule callback h =
     (case setTimeout (\<lambda>u. callback u) h of (handle, h') \<Rightarrow> (clearInterval handle, h'))"

text \<open>What the program and the host can do next, in any order.\<close>

datatype 'u event = Turn | Schedule "'u Action" | Clear nat | From

fun step :: "'u event \<Rightarrow> 'u host \<Rightarrow> 'u host" where
  "step Turn h = macrotask h"
| "step (Schedule callback) h = snd (schedule callback h)"
| "step (Clear handle) h = clearInterval handle h"
| "step From h = snd (MacrotaskScheduler_from h)"

definition run :: "'u event list \<Rightarrow> 'u host \<Rightarrow> 'u host" where
  "run evs h = fold step evs h"

text \<open>Every active timer carries a handle the host has already issued.\<close>

definition wf_host :: "'u host \<Rightarrow> bool" where
  "wf_host h \<longleftrightarrow> (\<forall>t \<in> set (timers h). fst t < next_handle h)"


definition boot :: "nat host" where
  "boot = \<lparr>timers = [], next_handle = 1, ran = [], user = 0,
           singletonScheduler = None, next_ref = 0\<rparr>"

definition bump :: "nat Action" where
  "bump u = u + 1"

definition triple :: "nat Action" where
  "triple u = 3 * u"

definition boot1 :: "nat host" where
  "boot1 = boot\<lparr>timers := [(1, bump)], next_handle := 2\<rparr>"

definition boot2 :: "nat host" where
  "boot2 = boot\<lparr>timers := [(1, bump), (2, triple)], next_handle := 3\<rparr>"

section \<open>The reactive core\<close>

text \<open>
  Modelled from the spec: the reactive core. The sources hold its tests and its callers,
  not the core itself (\<open>signals.ts\<close>, \<open>signals/reactive-root.ts\<close>,
  \<open>signals/schedulers/test-scheduler.ts\<close>, \<open>signals/schedulers/stability-tracker.ts\<close>).
  The definitions of this section follow the specification of the core, and the tests of
  \<open>signal-component-accessor\<close> where the tests say what the code does.

  A derivation function or an effect callback is a program over the graph: it reads
  signals (\<open>Get\<close>) and computed signals (\<open>Call\<close>), and computes. What an effect does
  with the value is recorded in \<open>trace\<close>, one entry per run of the effect. A consumer
  is a computed signal or an effect; an evaluation fails with a cycle error, or on a
  signal that was never created.
\<close>

datatype consumer = Computed nat | Effect nat

datatype expr =
  Const int
  | Get nat
  | Call nat
  | Plus expr expr
  | Times expr expr
  | Cond expr expr expr

datatype eval_error = CycleError nat | NoSuchSignal nat | NoSuchComputed nat

text \<open>
  Modelled from the spec: the closures a scheduler holds and returns. \<open>RunEffect e\<close> is
  the run an effect enqueues; \<open>Observed t a\<close> is the action \<open>a\<close> as instrumented by
  the stability tracker under ticket \<open>t\<close>. \<open>CancelQueued s i\<close> is the handle
  scheduler \<open>s\<close> returned for its entry \<open>i\<close>; \<open>CancelObserved t c\<close> is the handle
  \<open>c\<close> as instrumented by the tracker.
\<close>

datatype action = RunEffect nat | Observed nat action

datatype CancelAction = CancelQueued nat nat | CancelObserved nat CancelAction

text \<open>
  Modelled from the spec: the data model of section 3. A signal has a current value and
  its dependents; a computed signal a cached value, a dirty flag, its dependents and (for
  the properties on memoization) the number of calls of its derivation function; an
  effect its callback, the scheduler it is bound to, the handle of its pending run and a
  disposed flag. A manual scheduler has a queue of entries and the cancelled flags of the
  handles it gave out. The stability tracker has a counter and, for every ticket, whether
  its action was executed or cancelled already. The root has the connection state of its
  host, a default scheduler, the effects it owns and the registrations that wait for the
  host to connect.
\<close>

record signal_cell =
  current :: int
  dependents :: "consumer list"

record computed_cell =
  cached_value :: "int option"
  dirty :: bool
  cdependents :: "consumer list"
  invocations :: nat

record effect_cell =
  effect_fn :: expr
  scheduler :: nat
  pending :: "CancelAction option"
  disposed :: bool

record test_scheduler =
  queue :: "(nat \<times> action) list"
  cancelled :: "nat list"
  next_id :: nat

record stability_tracker =
  counter :: nat
  settled :: "nat list"
  next_ticket :: nat

record reactive_root =
  connected :: bool
  default_scheduler :: nat
  owned :: "nat list"
  deferred :: "(expr \<times> nat) list"

record world =
  signals :: "nat \<rightharpoonup> signal_cell"
  next_signal :: nat
  defs :: "expr list"
  computeds :: "nat \<Rightarrow> computed_cell"
  effects :: "nat \<rightharpoonup> effect_cell"
  next_effect :: nat
  schedulers :: "nat \<Rightarrow> test_scheduler"
  tracker :: stability_tracker
  root :: reactive_root
  trace :: "(nat \<times> (eval_error + int)) list"

text \<open>
  Modelled from the spec: \<open>TestScheduler.schedule\<close> (section 4.5, manual scheduler).
  The action joins the queue; nothing runs.
\<close>

definition TestScheduler_schedule :: "nat \<Rightarrow> action \<Rightarrow> world \<Rightarrow> CancelAction \<times> world" where
  "TestScheduler_schedule sid a w =
     (let s = schedulers w sid; i = next_id s in
      (CancelQueued sid i,
       w\<lparr>schedulers := (schedulers w)(sid := s\<lparr>queue := queue s @ [(i, a)], next_id := Suc i\<rparr>)\<rparr>))"

text \<open>
  Modelled from the spec: the stability tracker's decrement (section 4.7), once per
  action, whether the action is executed or cancelled first.
\<close>

definition settle :: "nat \<Rightarrow> world \<Rightarrow> world" where
  "settle t w =
     (let tr = tracker w in
      if t \<in> set (settled tr) then w
      else w\<lparr>tracker := tr\<lparr>counter := counter tr - 1, settled := t # settled tr\<rparr>\<rparr>)"

text \<open>
  Modelled from the spec: invoking a cancellation handle (section 4.5). The scheduler's
  handle sets the cancelled flag it owns and leaves the queue alone; the tracker's handle
  cancels the inner handle and settles its ticket.
\<close>

fun run_cancel :: "CancelAction \<Rightarrow> world \<Rightarrow> world" where
  "run_cancel (CancelQueued sid i) w =
     (let s = schedulers w sid in
      w\<lparr>schedulers := (schedulers w)(sid := s\<lparr>cancelled := i # cancelled s\<rparr>)\<rparr>)"
| "run_cancel (CancelObserved t c) w = settle t (run_cancel c w)"

text \<open>
  Modelled from the spec: \<open>schedule\<close> of a scheduler instrumented by the stability
  tracker (section 4.7): the counter goes up by one for the accepted action.
\<close>

definition observed_schedule :: "nat \<Rightarrow> action \<Rightarrow> world \<Rightarrow> CancelAction \<times> world" where
  "observed_schedule sid a w =
     (let tr = tracker w; t = next_ticket tr;
          w1 = w\<lparr>tracker := tr\<lparr>counter := counter tr + 1, next_ticket := Suc t\<rparr>\<rparr>
      in case TestScheduler_schedule sid (Observed t a) w1 of
           (c, w2) \<Rightarrow> (CancelObserved t c, w2))"

text \<open>Modelled from the spec: \<open>StabilityTracker.isStable\<close> (section 3).\<close>

definition isStable :: "world \<Rightarrow> bool" where
  "isStable w \<longleftrightarrow> counter (tracker w) = 0"

text \<open>
  Modelled from the spec: a notification reaching an effect (section 4.4). A disposed
  effect and an effect with a pending run ignore it; otherwise one run is enqueued on the
  effect's scheduler and its handle kept.
\<close>

definition enqueue_run :: "nat \<Rightarrow> world \<Rightarrow> world" where
  "enqueue_run e w =
     (case effects w e of
        None \<Rightarrow> w
      | Some cell \<Rightarrow>
          if disposed cell \<or> pending cell \<noteq> None then w
          else (case observed_schedule (scheduler cell) (RunEffect e) w of
                  (c, w1) \<Rightarrow> w1\<lparr>effects := (effects w1)(e \<mapsto> cell\<lparr>pending := Some c\<rparr>)\<rparr>))"

text \<open>
  Modelled from the spec: notifying dependents (section 2). A computed signal is marked
  dirty; an effect enqueues a run.
\<close>

fun notify_consumer :: "consumer \<Rightarrow> world \<Rightarrow> world" where
  "notify_consumer (Computed c) w =
     w\<lparr>computeds := (computeds w)(c := (computeds w c)\<lparr>dirty := True\<rparr>)\<rparr>"
| "notify_consumer (Effect e) w = enqueue_run e w"

definition notify :: "consumer list \<Rightarrow> world \<Rightarrow> world" where
  "notify ks w = fold notify_consumer ks w"

text \<open>
  Modelled from the spec: the dependency tracker (section 4.3). The current consumer is
  the top of the stack of running evaluations; a read with an empty stack registers
  nothing. \<open>unsubscribe\<close> clears a consumer's registrations before it runs again.
\<close>

definition subscribe :: "consumer list \<Rightarrow> consumer list \<Rightarrow> consumer list" where
  "subscribe stack ds =
     (case stack of [] \<Rightarrow> ds | k # _ \<Rightarrow> if k \<in> set ds then ds else ds @ [k])"

definition unsubscribe :: "consumer \<Rightarrow> world \<Rightarrow> world" where
  "unsubscribe k w =
     w\<lparr>signals := (\<lambda>s. map_option (\<lambda>cell. cell\<lparr>dependents := removeAll k (dependents cell)\<rparr>)
                         (signals w s)),
       computeds := (\<lambda>c. (computeds w c)\<lparr>cdependents := removeAll k (cdependents (computeds w c))\<rparr>)\<rparr>"

text \<open>Modelled from the spec: \<open>get\<close> and \<open>set\<close> of a signal (section 4.1).\<close>

definition signal_get :: "consumer list \<Rightarrow> nat \<Rightarrow> world \<Rightarrow> (eval_error + int) \<times> world" where
  "signal_get stack s w =
     (case signals w s of
        None \<Rightarrow> (Inl (NoSuchSignal s), w)
      | Some cell \<Rightarrow>
          (Inr (current cell),
           w\<lparr>signals := (signals w)(s \<mapsto> cell\<lparr>dependents := subscribe stack (dependents cell)\<rparr>)\<rparr>))"

definition signal_set :: "nat \<Rightarrow> int \<Rightarrow> world \<Rightarrow> world" where
  "signal_set s v w =
     (case signals w s of
        None \<Rightarrow> w
      | Some cell \<Rightarrow>
          if current cell = v then w
          else notify (dependents cell)
                 (w\<lparr>signals := (signals w)(s \<mapsto> \<lparr>current = v, dependents = []\<rparr>)\<rparr>))"

text \<open>
  Modelled from the spec: the steps around a call of a derivation function (section 4.2).
  Before the call the computed signal's registrations are cleared (and the call is
  counted); after it the result is stored, the dirty flag cleared, and the dependents
  notified if the result differs from the previous cached value. The reader of a
  computed signal is registered with it when the read returns.
\<close>

definition begin_evaluation :: "nat \<Rightarrow> world \<Rightarrow> world" where
  "begin_evaluation c w =
     (let w1 = unsubscribe (Computed c) w; cell = computeds w1 c in
      w1\<lparr>computeds := (computeds w1)(c := cell\<lparr>invocations := Suc (invocations cell)\<rparr>)\<rparr>)"

definition finish_evaluation :: "nat \<Rightarrow> int \<Rightarrow> world \<Rightarrow> world" where
  "finish_evaluation c v w =
     (let cell = computeds w c;
          w1 = w\<lparr>computeds := (computeds w)(c := cell\<lparr>cached_value := Some v, dirty := False\<rparr>)\<rparr>
      in if cached_value cell = Some v then w1 else notify (cdependents cell) w1)"

definition returned :: "consumer list \<Rightarrow> nat \<Rightarrow> world \<Rightarrow> world" where
  "returned stack c w =
     w\<lparr>computeds := (computeds w)
        (c := (computeds w c)\<lparr>cdependents := subscribe stack (cdependents (computeds w c))\<rparr>)\<rparr>"

text \<open>The cached value, when a read may reuse it: the signal is not dirty.\<close>

definition reusable :: "computed_cell \<Rightarrow> int option" where
  "reusable cell = (if dirty cell then None else cached_value cell)"

text \<open>The computed signals of \<open>ds\<close> that are not being evaluated.\<close>

definition unvisited :: "expr list \<Rightarrow> consumer list \<Rightarrow> nat" where
  "unvisited ds stack = card {c. c < length ds \<and> Computed c \<notin> set stack}"

text \<open>
  Modelled from the spec: evaluation (sections 4.1 to 4.3). \<open>eval\<close> runs a derivation
  function or a callback under the stack of active consumers; \<open>evaluate\<close> reads a
  computed signal: a signal on the stack is a cycle, a clean signal returns its cached
  value, a dirty one is pushed and recomputed. An error ends the evaluation in progress;
  the stack is restored on every way out, being an argument.
\<close>

function eval :: "expr list \<Rightarrow> consumer list \<Rightarrow> expr \<Rightarrow> world \<Rightarrow> (eval_error + int) \<times> world"
  and evaluate :: "expr list \<Rightarrow> consumer list \<Rightarrow> nat \<Rightarrow> world \<Rightarrow> (eval_error + int) \<times> world"
where
  "eval ds stack (Const n) w = (Inr n, w)"
| "eval ds stack (Get s) w = signal_get stack s w"
| "eval ds stack (Call c) w = evaluate ds stack c w"
| "eval ds stack (Plus a b) w =
     (case eval ds stack a w of
        (Inl err, w1) \<Rightarrow> (Inl err, w1)
      | (Inr x, w1) \<Rightarrow>
          (case eval ds stack b w1 of
             (Inl err, w2) \<Rightarrow> (Inl err, w2)
           | (Inr y, w2) \<Rightarrow> (Inr (x + y), w2)))"
| "eval ds stack (Times a b) w =
     (case eval ds stack a w of
        (Inl err, w1) \<Rightarrow> (Inl err, w1)
      | (Inr x, w1) \<Rightarrow>
          (case eval ds stack b w1 of
             (Inl err, w2) \<Rightarrow> (Inl err, w2)
           | (Inr y, w2) \<Rightarrow> (Inr (x * y), w2)))"
| "eval ds stack (Cond c a b) w =
     (case eval ds stack c w of
        (Inl err, w1) \<Rightarrow> (Inl err, w1)
      | (Inr x, w1) \<Rightarrow> if x \<noteq> 0 then eval ds stack a w1 else eval ds stack b w1)"
| "evaluate ds stack c w =
     (if length ds \<le> c then (Inl (NoSuchComputed c), w)
      else if Computed c \<in> set stack then (Inl (CycleError c), w)
      else (case reusable (computeds w c) of
              Some v \<Rightarrow> (Inr v, returned stack c w)
            | None \<Rightarrow>
              (case eval ds (Computed c # stack) (ds ! c) (begin_evaluation c w) of
                 (Inl err, w1) \<Rightarrow> (Inl err, w1)
               | (Inr v, w1) \<Rightarrow> (Inr v, returned stack c (finish_evaluation c v w1)))))"
  by pat_completeness auto

termination
proof -
  have push: "unvisited ds (Computed c # stack) < unvisited ds stack"
    if "c < length ds" and "Computed c \<notin> set stack" for ds c stack
  proof -
    have "{k. k < length ds \<and> Computed k \<notin> set (Computed c # stack)}
          \<subset> {k. k < length ds \<and> Computed k \<notin> set stack}"
      using that by auto
    moreover have "finite {k. k < length ds \<and> Computed k \<notin> set stack}"
      by simp
    ultimately show ?thesis
      unfolding unvisited_def by (rule psubset_card_mono [rotated])
  qed
  show ?thesis
    by (relation "inv_image (less_than <*lex*> less_than)
          (\<lambda>x. case x of
             Inl (ds, stack, e, w) \<Rightarrow> (unvisited ds stack, Suc (size e))
           | Inr (ds, stack, c, w) \<Rightarrow> (unvisited ds stack, 0))")
       (auto simp: push)
qed

text \<open>
  Modelled from the spec: one run of an effect (section 4.4). The pending handle is
  dropped, the old registrations cleared, and the callback evaluated with the effect as
  the current consumer; the outcome, value or error, is recorded and goes no further.
\<close>

definition run_effect :: "nat \<Rightarrow> world \<Rightarrow> world" where
  "run_effect e w =
     (case effects w e of
        None \<Rightarrow> w
      | Some cell \<Rightarrow>
          (let w1 = w\<lparr>effects := (effects w)(e \<mapsto> cell\<lparr>pending := None\<rparr>)\<rparr> in
           if disposed cell then w1
           else (case eval (defs w1) [Effect e] (effect_fn cell) (unsubscribe (Effect e) w1) of
                   (r, w2) \<Rightarrow> w2\<lparr>trace := trace w2 @ [(e, r)]\<rparr>)))"

text \<open>
  Modelled from the spec: executing a queued action. An instrumented action settles its
  ticket and runs the action it wraps.
\<close>

fun exec :: "action \<Rightarrow> world \<Rightarrow> world" where
  "exec (RunEffect e) w = run_effect e w"
| "exec (Observed t a) w = exec a (settle t w)"

text \<open>
  Modelled from the spec: \<open>TestScheduler.flush\<close> (section 4.5), a single pass. The
  entries queued at the call are taken out and invoked in the order of their enqueuing;
  the cancelled flag of an entry is looked at when its turn comes. Entries enqueued
  during the pass wait for the next flush.
\<close>

definition invoke_queued :: "nat \<Rightarrow> nat \<times> action \<Rightarrow> world \<Rightarrow> world" where
  "invoke_queued sid entry w =
     (if fst entry \<in> set (cancelled (schedulers w sid)) then w else exec (snd entry) w)"

definition flush :: "nat \<Rightarrow> world \<Rightarrow> world" where
  "flush sid w =
     (let s = schedulers w sid in
      fold (invoke_queued sid) (queue s) (w\<lparr>schedulers := (schedulers w)(sid := s\<lparr>queue := []\<rparr>)\<rparr>))"

text \<open>
  Modelled from the spec: \<open>ReactiveRootImpl.effect\<close> (section 4.6), which is not in the
  sources. The effect is created, owned by the root and bound to the given scheduler or
  to the root's default. On a connected host its first run is enqueued on that
  scheduler, through the stability tracker: the tests of \<open>signal-component-accessor\<close>
  expect the tracker to be unstable and the callback not to have been called when
  \<open>root.effect\<close> returns, and the callback to have been called once after the
  scheduler's \<open>flush\<close>. On a host that is not connected the registration waits.
\<close>

definition start_effect :: "expr \<Rightarrow> nat \<Rightarrow> world \<Rightarrow> world" where
  "start_effect cb sid w =
     (let e = next_effect w in
      enqueue_run e
        (w\<lparr>effects := (effects w)
              (e \<mapsto> \<lparr>effect_fn = cb, scheduler = sid, pending = None, disposed = False\<rparr>),
           next_effect := Suc e,
           root := (root w)\<lparr>owned := owned (root w) @ [e]\<rparr>\<rparr>))"

definition root_effect :: "expr \<Rightarrow> nat option \<Rightarrow> world \<Rightarrow> world" where
  "root_effect cb sched w =
     (let sid = (case sched of None \<Rightarrow> default_scheduler (root w) | Some s \<Rightarrow> s) in
      if connected (root w) then start_effect cb sid w
      else w\<lparr>root := (root w)\<lparr>deferred := deferred (root w) @ [(cb, sid)]\<rparr>\<rparr>)"

text \<open>
  Modelled from the spec: disposal of an effect, and the host's connect and disconnect
  notifications (sections 4.4 and 4.6). Disconnecting disposes every effect the root
  owns; connecting starts the registrations that waited and revives nothing.
\<close>

definition dispose :: "nat \<Rightarrow> world \<Rightarrow> world" where
  "dispose e w =
     (case effects w e of
        None \<Rightarrow> w
      | Some cell \<Rightarrow>
          (let w1 = w\<lparr>effects := (effects w)(e \<mapsto> cell\<lparr>disposed := True, pending := None\<rparr>)\<rparr> in
           case pending cell of None \<Rightarrow> w1 | Some c \<Rightarrow> run_cancel c w1))"

definition connect :: "world \<Rightarrow> world" where
  "connect w =
     (if connected (root w) then w
      else fold (\<lambda>(cb, sid). start_effect cb sid) (deferred (root w))
             (w\<lparr>root := (root w)\<lparr>connected := True, deferred := []\<rparr>\<rparr>))"

definition disconnect :: "world \<Rightarrow> world" where
  "disconnect w =
     (if \<not> connected (root w) then w
      else fold dispose (owned (root w))
             (w\<lparr>root := (root w)\<lparr>connected := False, owned := []\<rparr>\<rparr>))"

text \<open>
  Modelled from the spec: the constructors \<open>signal(initialValue)\<close> and
  \<open>cached(deriveFn)\<close>, and a read of a computed signal from outside any evaluation
  (section 6).
\<close>

definition signal :: "int \<Rightarrow> world \<Rightarrow> nat \<times> world" where
  "signal initial w =
     (next_signal w,
      w\<lparr>signals := (signals w)(next_signal w \<mapsto> \<lparr>current = initial, dependents = []\<rparr>),
        next_signal := Suc (next_signal w)\<rparr>)"

definition cached :: "expr \<Rightarrow> world \<Rightarrow> nat \<times> world" where
  "cached fn w = (length (defs w), w\<lparr>defs := defs w @ [fn]\<rparr>)"

definition read :: "nat \<Rightarrow> world \<Rightarrow> (eval_error + int) \<times> world" where
  "read c w = evaluate (defs w) [] c w"

text \<open>
  The world before anything is created: a root on a host that is connected or not, with
  scheduler \<open>0\<close> as its default; every scheduler empty; every computed signal yet to be
  created dirty and without a value.
\<close>

definition fresh_cell :: computed_cell where
  "fresh_cell = \<lparr>cached_value = None, dirty = True, cdependents = [], invocations = 0\<rparr>"

definition empty_world :: "bool \<Rightarrow> world" where
  "empty_world conn =
     \<lparr>signals = Map.empty, next_signal = 0, defs = [], computeds = (\<lambda>c. fresh_cell),
      effects = Map.empty, next_effect = 0,
      schedulers = (\<lambda>s. \<lparr>queue = [], cancelled = [], next_id = 0\<rparr>),
      tracker = \<lparr>counter = 0, settled = [], next_ticket = 0\<rparr>,
      root = \<lparr>connected = conn, default_scheduler = 0, owned = [], deferred = []\<rparr>,
      trace = []\<rparr>"

text \<open>
  The scenarios of the properties below: \<open>doubled = cached(() => c.get() * 2)\<close> over
  \<open>c = signal(v)\<close>, and a computed signal that reads itself while a flag signal is set.
\<close>

definition flag_then_self :: expr where
  "flag_then_self = Cond (Get 0) (Call 0) (Const 7)"

definition looped :: world where
  "looped = snd (cached flag_then_self (snd (signal 1 (empty_world True))))"

definition doubled :: expr where
  "doubled = Times (Get 0) (Const 2)"

definition doubling :: "int \<Rightarrow> world" where
  "doubling v = snd (cached doubled (snd (signal v (empty_world True))))"


definition runs_of :: "nat \<Rightarrow> world \<Rightarrow> nat" where
  "runs_of e w = length (filter (\<lambda>entry. fst entry = e) (trace w))"


definition alive :: "nat \<Rightarrow> world \<Rightarrow> bool" where
  "alive e w \<longleftrightarrow> (case effects w e of None \<Rightarrow> False | Some cell \<Rightarrow> \<not> disposed cell)"





text \<open>
  Two relations between the world before and after a step: the step appends nothing to
  the trace, disposes nothing and cancels nothing (\<open>same_flags\<close>); the step leaves a
  blocked effect and its queue entries as they are (\<open>quiet\<close>).
\<close>

definition same_flags :: "world \<Rightarrow> world \<Rightarrow> bool" where
  "same_flags w w' \<longleftrightarrow>
     trace w' = trace w
     \<and> (\<forall>e. alive e w \<longrightarrow> alive e w')
     \<and> (\<forall>sid. cancelled (schedulers w' sid) = cancelled (schedulers w sid))"


text \<open>
  The two tests of \<open>signal-component-accessor\<close>: the element is in the document, the
  callback is a spy, and the effect is registered with the root's default scheduler
  (\<open>0\<close>), or with a scheduler of its own (\<open>1\<close>).
\<close>

definition spy :: expr where
  "spy = Const 0"

definition test_default :: world where
  "test_default = root_effect spy None (empty_world True)"

definition test_custom :: world where
  "test_custom = root_effect spy (Some 1) (empty_world True)"













text \<open>
  The operations of the core as the rest of the system calls them (section 6), and the
  world they lead to from a given one.
\<close>

datatype call =
  NewSignal int
  | NewCached expr
  | Read nat
  | SetSignal nat int
  | RootEffect expr "nat option"
  | Flush nat
  | Connect
  | Disconnect

fun apply_call :: "call \<Rightarrow> world \<Rightarrow> world" where
  "apply_call (NewSignal v) w = snd (signal v w)"
| "apply_call (NewCached fn) w = snd (cached fn w)"
| "apply_call (Read c) w = snd (read c w)"
| "apply_call (SetSignal s v) w = signal_set s v w"
| "apply_call (RootEffect cb sched) w = root_effect cb sched w"
| "apply_call (Flush sid) w = flush sid w"
| "apply_call Connect w = connect w"
| "apply_call Disconnect w = disconnect w"

definition after :: "call list \<Rightarrow> world \<Rightarrow> world" where
  "after calls w = fold apply_call calls w"

declare evaluate.simps [simp del]

section \<open>Properties of ElementRef\<close>

text \<open>
  C9. \<open>ElementRef.from(native)\<close> throws exactly when the node's \<open>nodeType\<close> is not
  \<open>ELEMENT_NODE\<close>; otherwise it returns an \<open>ElementRef\<close> whose \<open>native\<close> is the
  input node itself.
\<close>

theorem ElementRef_from_throws_iff:
  "((\<exists>e. ElementRef_from n = Inl e) \<longleftrightarrow> nodeType n \<noteq> ELEMENT_NODE)
   \<and> (nodeType n = ELEMENT_NODE \<longrightarrow>
        (\<exists>r. ElementRef_from n = Inr r \<and> native r = n))"
  by (simp add: ElementRef_from_def)

theorem ElementRef_from_throws_iff_witness:
  "nodeType div_tweet = ELEMENT_NODE
   \<and> (\<exists>r. ElementRef_from div_tweet = Inr r \<and> native r = div_tweet)
   \<and> nodeType text_node \<noteq> ELEMENT_NODE
   \<and> (\<exists>e. ElementRef_from text_node = Inl e)"
  using ElementRef_from_throws_iff [of div_tweet] ElementRef_from_throws_iff [of text_node]
  by (simp add: div_tweet_def text_node_def ELEMENT_NODE_def)




section \<open>Properties of MacrotaskScheduler\<close>

lemma singleton_step: "singletonScheduler h = Some r \<Longrightarrow> singletonScheduler (step ev h) = Some r"
  by (cases ev)
     (auto simp: macrotask_def dequeue_def invoke_def schedule_def setTimeout_def
        clearInterval_def MacrotaskScheduler_from_def split: list.splits)

lemma singleton_run: "singletonScheduler h = Some r \<Longrightarrow> singletonScheduler (run evs h) = Some r"
  unfolding run_def by (induction evs arbitrary: h) (simp_all add: singleton_step)

lemma from_sets:
  "singletonScheduler (snd (MacrotaskScheduler_from h)) = Some (fst (MacrotaskScheduler_from h))"
  by (auto simp: MacrotaskScheduler_from_def)

lemma from_reads: "singletonScheduler h = Some r \<Longrightarrow> MacrotaskScheduler_from h = (r, h)"
  by (simp add: MacrotaskScheduler_from_def)

text \<open>
  C8. \<open>MacrotaskScheduler.from()\<close> is a singleton accessor. Whatever the program and the
  host do after a first call (further calls of \<open>from\<close>, scheduling, cancelling, timer
  turns), a later call returns the instance the first call returned and allocates nothing;
  a first call, on an unset variable, constructs the instance.
\<close>

theorem MacrotaskScheduler_from_singleton:
  "fst (MacrotaskScheduler_from (run evs (snd (MacrotaskScheduler_from h))))
     = fst (MacrotaskScheduler_from h)
   \<and> snd (MacrotaskScheduler_from (run evs (snd (MacrotaskScheduler_from h))))
     = run evs (snd (MacrotaskScheduler_from h))
   \<and> (singletonScheduler h = None \<longrightarrow>
        fst (MacrotaskScheduler_from h) = next_ref h
        \<and> next_ref (snd (MacrotaskScheduler_from h)) = Suc (next_ref h))"
  using singleton_run [OF from_sets, of evs h]
  by (simp add: from_reads) (simp add: MacrotaskScheduler_from_def)

theorem MacrotaskScheduler_from_singleton_witness:
  "singletonScheduler boot = None
   \<and> fst (MacrotaskScheduler_from boot) = 0
   \<and> next_ref (snd (MacrotaskScheduler_from boot)) = 1
   \<and> fst (MacrotaskScheduler_from
        (run [Schedule bump, From, Turn] (snd (MacrotaskScheduler_from boot)))) = 0"
  using MacrotaskScheduler_from_singleton [of "[Schedule bump, From, Turn]" boot]
  by (simp add: boot_def)







lemma wf_boot: "wf_host boot"
  by (simp add: wf_host_def boot_def)

text \<open>Scheduling behind a non-empty table commutes with a turn of the host.\<close>

lemma macrotask_schedule:
  "timers h \<noteq> [] \<Longrightarrow> macrotask (snd (schedule a h)) = snd (schedule a (macrotask h))"
  by (cases "timers h")
     (simp_all add: macrotask_def dequeue_def invoke_def schedule_def setTimeout_def)

lemma timers_macrotask: "timers (macrotask h) = tl (timers h)"
  by (cases "timers h") (simp_all add: macrotask_def dequeue_def invoke_def)

lemma turns_schedule:
  "n \<le> length (timers h) \<Longrightarrow>
     (macrotask ^^ n) (snd (schedule a h)) = snd (schedule a ((macrotask ^^ n) h))
     \<and> length (timers ((macrotask ^^ n) h)) = length (timers h) - n"
proof (induction n)
  case 0
  show ?case by simp
next
  case (Suc n)
  then have ih: "(macrotask ^^ n) (snd (schedule a h)) = snd (schedule a ((macrotask ^^ n) h))"
    and len: "length (timers ((macrotask ^^ n) h)) = length (timers h) - n"
    by simp_all
  from len Suc.prems have "timers ((macrotask ^^ n) h) \<noteq> []" by auto
  then show ?case
    using ih len by (simp add: macrotask_schedule timers_macrotask)
qed

lemma macrotask_runs_only_timer:
  "timers h = [] \<Longrightarrow>
     user (macrotask (snd (schedule a h))) = a (user h)
     \<and> ran (macrotask (snd (schedule a h))) = ran h @ [next_handle h]
     \<and> timers (macrotask (snd (schedule a h))) = []"
  by (simp add: macrotask_def dequeue_def invoke_def schedule_def setTimeout_def)


text \<open>
  C5. \<open>MacrotaskScheduler.schedule\<close> does not run the action inside the call: the
  shared state and the record of executed tasks are unchanged when it returns, and
  the action runs in the turn that follows the turns of the timers registered before it.
  Two calls register two timers under different handles; cancelling either leaves the
  other registered, and one turn of the host runs one of them, not both.
\<close>

theorem schedule_defers_each_action:
  assumes "wf_host h"
    and "schedule a h = (cancel_a, h1)"
    and "schedule b h1 = (cancel_b, h2)"
  shows "user h1 = user h \<and> ran h1 = ran h
     \<and> user ((macrotask ^^ length (timers h)) h1) = user ((macrotask ^^ length (timers h)) h)
     \<and> user ((macrotask ^^ Suc (length (timers h))) h1)
          = a (user ((macrotask ^^ length (timers h)) h))
     \<and> timers h2 = timers h @ [(next_handle h, a), (Suc (next_handle h), b)]
     \<and> timers (cancel_a h2) = timers h @ [(Suc (next_handle h), b)]
     \<and> timers (cancel_b h2) = timers h @ [(next_handle h, a)]
     \<and> (timers h = [] \<longrightarrow>
           user (macrotask h2) = a (user h)
           \<and> timers (macrotask h2) = [(Suc (next_handle h), b)]
           \<and> user (macrotask (macrotask h2)) = b (a (user h)))"
proof -
  let ?n = "length (timers h)"
  have h1: "h1 = snd (schedule a h)" using assms(2) by simp
  have now: "user h1 = user h \<and> ran h1 = ran h"
    using assms(2) by (auto simp: schedule_def setTimeout_def)
  have comm: "(macrotask ^^ ?n) h1 = snd (schedule a ((macrotask ^^ ?n) h))"
    and empty: "timers ((macrotask ^^ ?n) h) = []"
    using turns_schedule [of ?n h a] by (simp_all add: h1)
  have before: "user ((macrotask ^^ ?n) h1) = user ((macrotask ^^ ?n) h)"
    by (simp add: comm schedule_def setTimeout_def)
  have after: "user ((macrotask ^^ Suc ?n) h1) = a (user ((macrotask ^^ ?n) h))"
    using macrotask_runs_only_timer [OF empty, of a] by (simp add: comm)
  have fresh: "\<forall>t \<in> set (timers h). fst t \<noteq> next_handle h \<and> fst t \<noteq> Suc (next_handle h)"
    using assms(1) by (auto simp: wf_host_def)
  have keep: "filter (\<lambda>t. fst t \<noteq> next_handle h) (timers h) = timers h"
    "filter (\<lambda>t. fst t \<noteq> Suc (next_handle h)) (timers h) = timers h"
    using fresh by (simp_all add: filter_id_conv)
  have two: "timers h2 = timers h @ [(next_handle h, a), (Suc (next_handle h), b)]"
    and ca: "cancel_a = clearInterval (next_handle h)"
    and cb: "cancel_b = clearInterval (Suc (next_handle h))"
    using assms(2,3) by (auto simp: schedule_def setTimeout_def)
  have "timers (cancel_a h2) = timers h @ [(Suc (next_handle h), b)]"
    and "timers (cancel_b h2) = timers h @ [(next_handle h, a)]"
    by (simp_all add: ca cb two clearInterval_def keep)
  moreover have "timers h = [] \<longrightarrow>
      user (macrotask h2) = a (user h) \<and> timers (macrotask h2) = [(Suc (next_handle h), b)]
      \<and> user (macrotask (macrotask h2)) = b (a (user h))"
    using two assms(2,3)
    by (auto simp: macrotask_def dequeue_def invoke_def schedule_def setTimeout_def)
  ultimately show ?thesis using now before after two by auto
qed

lemma schedule_boot: "schedule bump boot = (clearInterval 1, boot1)"
  by (simp add: schedule_def setTimeout_def boot_def boot1_def)

lemma schedule_boot1: "schedule triple boot1 = (clearInterval 2, boot2)"
  by (simp add: schedule_def setTimeout_def boot_def boot1_def boot2_def)

theorem schedule_defers_each_action_witness:
  "wf_host boot
   \<and> schedule bump boot = (clearInterval 1, boot1)
   \<and> schedule triple boot1 = (clearInterval 2, boot2)
   \<and> user boot1 = 0
   \<and> user (macrotask boot1) = 1
   \<and> map fst (timers boot2) = [1, 2]
   \<and> map fst (timers (clearInterval 1 boot2)) = [2]
   \<and> map fst (timers (clearInterval 2 boot2)) = [1]
   \<and> user (macrotask boot2) = 1
   \<and> user (macrotask (macrotask boot2)) = 3"
proof -
  note th = schedule_defers_each_action [OF wf_boot schedule_boot schedule_boot1]
  have b: "timers boot = []" "user boot = 0" "next_handle boot = 1"
    by (simp_all add: boot_def)
  have "user boot1 = 0" "user (macrotask boot1) = bump 0"
    "timers boot2 = [(1, bump), (2, triple)]"
    "timers (clearInterval 1 boot2) = [(2, triple)]"
    "timers (clearInterval 2 boot2) = [(1, bump)]"
    "user (macrotask boot2) = bump 0"
    "user (macrotask (macrotask boot2)) = triple (bump 0)"
    using th by (simp_all add: b)
  then show ?thesis
    using wf_boot schedule_boot schedule_boot1 by (simp add: bump_def triple_def)
qed




section \<open>Properties of the reactive core\<close>



text \<open>
  One induction over evaluation serves every relation \<open>R\<close> between the world before
  and after that is reflexive, transitive and established by each primitive step. \<open>Q\<close>
  restricts the computed signals that get recomputed (those not on the stack), \<open>S\<close>
  the stacks.
\<close>

lemma eval_lift:
  fixes R :: "world \<Rightarrow> world \<Rightarrow> bool" and Q :: "nat \<Rightarrow> bool"
    and S :: "consumer list \<Rightarrow> bool"
  assumes refl: "\<And>w. R w w"
    and trans: "\<And>w1 w2 w3. R w1 w2 \<Longrightarrow> R w2 w3 \<Longrightarrow> R w1 w3"
    and get: "\<And>stack s w. S stack \<Longrightarrow> R w (snd (signal_get stack s w))"
    and ret: "\<And>stack c w. S stack \<Longrightarrow> R w (returned stack c w)"
    and beg: "\<And>c w. Q c \<Longrightarrow> R w (begin_evaluation c w)"
    and fin: "\<And>c v w. Q c \<Longrightarrow> R w (finish_evaluation c v w)"
    and push: "\<And>stack c. S stack \<Longrightarrow> S (Computed c # stack)"
  shows "(\<forall>c. \<not> Q c \<longrightarrow> Computed c \<in> set stack) \<Longrightarrow> S stack
          \<Longrightarrow> R w (snd (eval ds stack e w))"
    and "(\<forall>c. \<not> Q c \<longrightarrow> Computed c \<in> set stack) \<Longrightarrow> S stack
          \<Longrightarrow> R w (snd (evaluate ds stack c w))"
proof (induction ds stack e w and ds stack c w rule: eval_evaluate.induct)
  case (1 ds stack n w)
  show ?case by (simp add: refl)
next
  case (2 ds stack s w)
  then show ?case by (simp add: get)
next
  case (3 ds stack c w)
  then show ?case by simp
next
  case (4 ds stack a b w)
  obtain r1 w1 where e1: "eval ds stack a w = (r1, w1)" by (cases "eval ds stack a w")
  have s1: "R w w1" using 4(1) [OF 4(3,4)] e1 by simp
  show ?case
  proof (cases r1)
    case (Inl err)
    then show ?thesis using e1 s1 by simp
  next
    case (Inr x)
    obtain r2 w2 where e2: "eval ds stack b w1 = (r2, w2)" by (cases "eval ds stack b w1")
    have "R w1 w2" using 4(2) [OF e1 [symmetric] Inr 4(3,4)] e2 by simp
    with s1 have "R w w2" by (rule trans)
    then show ?thesis using e1 e2 Inr by (cases r2) simp_all
  qed
next
  case (5 ds stack a b w)
  obtain r1 w1 where e1: "eval ds stack a w = (r1, w1)" by (cases "eval ds stack a w")
  have s1: "R w w1" using 5(1) [OF 5(3,4)] e1 by simp
  show ?case
  proof (cases r1)
    case (Inl err)
    then show ?thesis using e1 s1 by simp
  next
    case (Inr x)
    obtain r2 w2 where e2: "eval ds stack b w1 = (r2, w2)" by (cases "eval ds stack b w1")
    have "R w1 w2" using 5(2) [OF e1 [symmetric] Inr 5(3,4)] e2 by simp
    with s1 have "R w w2" by (rule trans)
    then show ?thesis using e1 e2 Inr by (cases r2) simp_all
  qed
next
  case (6 ds stack c a b w)
  obtain r1 w1 where e1: "eval ds stack c w = (r1, w1)" by (cases "eval ds stack c w")
  have s1: "R w w1" using 6(1) [OF 6(4,5)] e1 by simp
  show ?case
  proof (cases r1)
    case (Inl err)
    then show ?thesis using e1 s1 by simp
  next
    case (Inr x)
    show ?thesis
    proof (cases "x \<noteq> 0")
      case True
      have "R w1 (snd (eval ds stack a w1))" using 6(2) [OF e1 [symmetric] Inr True 6(4,5)] .
      with s1 have "R w (snd (eval ds stack a w1))" by (rule trans)
      then show ?thesis using e1 Inr True by simp
    next
      case False
      have "R w1 (snd (eval ds stack b w1))" using 6(3) [OF e1 [symmetric] Inr False 6(4,5)] .
      with s1 have "R w (snd (eval ds stack b w1))" by (rule trans)
      then show ?thesis using e1 Inr False by simp
    qed
  qed
next
  case (7 ds stack c w)
  show ?case
  proof (cases "length ds \<le> c \<or> Computed c \<in> set stack")
    case True
    then show ?thesis by (auto simp: refl evaluate.simps)
  next
    case False
    then have valid: "\<not> length ds \<le> c" and off: "Computed c \<notin> set stack" by simp_all
    from off 7(2) have q: "Q c" by blast
    show ?thesis
    proof (cases "reusable (computeds w c)")
      case (Some v)
      then show ?thesis using valid off 7(3) by (simp add: ret evaluate.simps)
    next
      case None
      let ?w0 = "begin_evaluation c w"
      obtain r1 w1 where e1: "eval ds (Computed c # stack) (ds ! c) ?w0 = (r1, w1)"
        by (cases "eval ds (Computed c # stack) (ds ! c) ?w0")
      have on: "\<forall>k. \<not> Q k \<longrightarrow> Computed k \<in> set (Computed c # stack)" using 7(2) by simp
      have "S (Computed c # stack)" using 7(3) by (rule push)
      from 7(1) [OF valid off None on this] have "R ?w0 w1" using e1 by simp
      with beg [OF q] have s1: "R w w1" by (rule trans)
      show ?thesis
      proof (cases r1)
        case (Inl err)
        then show ?thesis using valid off None e1 s1 by (simp add: evaluate.simps)
      next
        case (Inr v)
        have "R w1 (finish_evaluation c v w1)" by (rule fin [OF q])
        moreover have "R (finish_evaluation c v w1) (returned stack c (finish_evaluation c v w1))"
          using 7(3) by (rule ret)
        ultimately have "R w (returned stack c (finish_evaluation c v w1))"
          using s1 by (blast intro: trans)
        then show ?thesis using valid off None e1 Inr by (simp add: evaluate.simps)
      qed
    qed
  qed
qed

subsection \<open>What the primitive steps leave alone\<close>

lemma observed_schedule_fields [simp]:
  "computeds (snd (observed_schedule sid a w)) = computeds w"
  "signals (snd (observed_schedule sid a w)) = signals w"
  "effects (snd (observed_schedule sid a w)) = effects w"
  "trace (snd (observed_schedule sid a w)) = trace w"
  "defs (snd (observed_schedule sid a w)) = defs w"
  "root (snd (observed_schedule sid a w)) = root w"
  "next_effect (snd (observed_schedule sid a w)) = next_effect w"
  "next_signal (snd (observed_schedule sid a w)) = next_signal w"
  by (simp_all add: observed_schedule_def TestScheduler_schedule_def Let_def)

lemma enqueue_run_fields [simp]:
  "computeds (enqueue_run e w) = computeds w"
  "signals (enqueue_run e w) = signals w"
  "trace (enqueue_run e w) = trace w"
  "defs (enqueue_run e w) = defs w"
  "root (enqueue_run e w) = root w"
  "next_effect (enqueue_run e w) = next_effect w"
  "next_signal (enqueue_run e w) = next_signal w"
  by (simp_all add: enqueue_run_def case_prod_beta split: option.splits)

lemma notify_consumer_fields [simp]:
  "signals (notify_consumer k w) = signals w"
  "trace (notify_consumer k w) = trace w"
  "defs (notify_consumer k w) = defs w"
  "root (notify_consumer k w) = root w"
  "next_effect (notify_consumer k w) = next_effect w"
  "next_signal (notify_consumer k w) = next_signal w"
  by (cases k; simp)+

lemma notify_fields [simp]:
  "signals (notify ks w) = signals w"
  "trace (notify ks w) = trace w"
  "defs (notify ks w) = defs w"
  "root (notify ks w) = root w"
  "next_effect (notify ks w) = next_effect w"
  "next_signal (notify ks w) = next_signal w"
  unfolding notify_def by (induction ks arbitrary: w; simp)+

lemma notify_consumer_dirty:
  "dirty (computeds w c) \<Longrightarrow> dirty (computeds (notify_consumer k w) c)"
  by (cases k) simp_all

lemma notify_dirty: "dirty (computeds w c) \<Longrightarrow> dirty (computeds (notify ks w) c)"
  unfolding notify_def by (induction ks arbitrary: w) (simp_all add: notify_consumer_dirty)

lemma evaluation_keeps_dirty:
  assumes "Computed c \<in> set stack" and "dirty (computeds w c)"
  shows "dirty (computeds (snd (eval ds stack e w)) c)"
proof -
  have "dirty (computeds w c) \<longrightarrow> dirty (computeds (snd (eval ds stack e w)) c)"
  proof (rule eval_lift(1) [where R = "\<lambda>w w'. dirty (computeds w c) \<longrightarrow> dirty (computeds w' c)"
        and Q = "\<lambda>k. k \<noteq> c" and S = "\<lambda>stack. True"])
    show "dirty (computeds w c) \<longrightarrow> dirty (computeds (snd (signal_get stack s w)) c)"
      for stack s w
      by (simp add: signal_get_def split: option.splits)
    show "dirty (computeds w c) \<longrightarrow> dirty (computeds (returned stack k w) c)" for stack k w
      by (simp add: returned_def)
    show "dirty (computeds w c) \<longrightarrow> dirty (computeds (begin_evaluation k w) c)" for k w
      by (simp add: begin_evaluation_def unsubscribe_def Let_def)
    show "dirty (computeds w c) \<longrightarrow> dirty (computeds (finish_evaluation k v w) c)"
      if "k \<noteq> c" for k v w
      using that by (auto simp: finish_evaluation_def Let_def intro!: notify_dirty)
    show "\<forall>k. \<not> k \<noteq> c \<longrightarrow> Computed k \<in> set stack"
      using assms(1) by simp
  qed simp_all
  with assms(2) show ?thesis by simp
qed

lemma begin_evaluation_dirty [simp]:
  "dirty (computeds (begin_evaluation c w) k) = dirty (computeds w k)"
  by (simp add: begin_evaluation_def unsubscribe_def Let_def)

lemma failed_evaluation_stays_dirty:
  assumes "dirty (computeds w c)" and "evaluate ds stack c w = (Inl err, w')"
  shows "dirty (computeds w' c)"
proof (cases "length ds \<le> c \<or> Computed c \<in> set stack")
  case True
  then show ?thesis using assms by (auto simp: evaluate.simps split: if_splits)
next
  case False
  then have valid: "\<not> length ds \<le> c" and off: "Computed c \<notin> set stack" by simp_all
  have none: "reusable (computeds w c) = None" using assms(1) by (simp add: reusable_def)
  obtain r1 w1 where e1: "eval ds (Computed c # stack) (ds ! c) (begin_evaluation c w) = (r1, w1)"
    by (cases "eval ds (Computed c # stack) (ds ! c) (begin_evaluation c w)")
  have "dirty (computeds w1 c)"
    using evaluation_keeps_dirty [of c "Computed c # stack" "begin_evaluation c w" ds "ds ! c"]
      assms(1) e1 by simp
  moreover have "w' = w1"
    using assms(2) valid off none e1 by (cases r1) (simp_all add: evaluate.simps)
  ultimately show ?thesis by simp
qed

lemmas core_defs = evaluate.simps read_def cached_def signal_def empty_world_def
      signal_get_def signal_set_def begin_evaluation_def finish_evaluation_def returned_def
      unsubscribe_def subscribe_def notify_def fresh_cell_def reusable_def

text \<open>
  C7. Reading a computed signal that is on the stack of active consumers fails at once
  with a cycle error and changes nothing; evaluation is a total function, so nothing
  loops. An evaluation of a dirty computed signal that fails leaves the signal dirty. In
  the scenario, the computed signal reads itself while the flag is set: the read fails
  with the cycle error and the signal stays dirty; once the flag is cleared the next read
  returns a value.
\<close>

theorem reentrant_evaluation_fails:
  "(Computed c \<in> set stack \<and> c < length ds \<longrightarrow>
      evaluate ds stack c w = (Inl (CycleError c), w))
   \<and> (dirty (computeds w c) \<and> evaluate ds stack c w = (Inl err, w') \<longrightarrow>
        dirty (computeds w' c))
   \<and> fst (read 0 looped) = Inl (CycleError 0)
   \<and> dirty (computeds (snd (read 0 looped)) 0)
   \<and> fst (read 0 (signal_set 0 0 (snd (read 0 looped)))) = Inr 7"
proof -
  have "fst (read 0 looped) = Inl (CycleError 0)"
    "dirty (computeds (snd (read 0 looped)) 0)"
    "fst (read 0 (signal_set 0 0 (snd (read 0 looped)))) = Inr 7"
    by (simp_all add: looped_def flag_then_self_def core_defs)
  then show ?thesis
    using failed_evaluation_stays_dirty [of w c ds stack err w']
    by (simp add: evaluate.simps)
qed

theorem reentrant_evaluation_fails_witness:
  "Computed 0 \<in> set [Computed 0] \<and> 0 < length (defs looped)
   \<and> evaluate (defs looped) [Computed 0] 0 looped = (Inl (CycleError 0), looped)
   \<and> dirty (computeds looped 0)
   \<and> evaluate (defs looped) [] 0 looped = (Inl (CycleError 0), snd (read 0 looped))
   \<and> dirty (computeds (snd (read 0 looped)) 0)"
proof -
  have a: "Computed 0 \<in> set [Computed 0] \<and> 0 < length (defs looped)"
    by (simp add: looped_def core_defs)
  have b: "dirty (computeds looped 0)"
    by (simp add: looped_def core_defs)
  have c: "evaluate (defs looped) [] 0 looped = (Inl (CycleError 0), snd (read 0 looped))"
    by (simp add: looped_def flag_then_self_def core_defs)
  show ?thesis
    using a b c
      reentrant_evaluation_fails [of 0 "[Computed 0]" "defs looped" looped]
      reentrant_evaluation_fails [of 0 "[]" "defs looped" looped "CycleError 0" "snd (read 0 looped)"]
    by simp
qed

text \<open>
  C4. With \<open>c = signal(v)\<close> and \<open>doubled = cached(() => c.get() * 2)\<close>: two reads of
  \<open>doubled\<close> both return \<open>2 v\<close> and call the derivation function once; after
  \<open>c.set(v)\<close> the next read returns \<open>2 v\<close> without a further call; after
  \<open>c.set(v')\<close> with another value the next read returns \<open>2 v'\<close> and the number of
  calls is two. The scenario of the claim is \<open>v = 5\<close>, \<open>v' = 6\<close>. In any world, a
  read of a computed signal that is not dirty returns the cached value and changes
  nothing.
\<close>

theorem cached_memoizes:
  assumes "v' \<noteq> v"
    and "read 0 (doubling v) = (r1, w1)"
    and "read 0 w1 = (r2, w2)"
    and "read 0 (signal_set 0 v w2) = (r3, w3)"
    and "read 0 (signal_set 0 v' w3) = (r4, w4)"
  shows "r1 = Inr (v * 2) \<and> r2 = Inr (v * 2) \<and> invocations (computeds w2 0) = 1
     \<and> r3 = Inr (v * 2) \<and> invocations (computeds w3 0) = 1
     \<and> r4 = Inr (v' * 2) \<and> invocations (computeds w4 0) = 2
     \<and> (c < length (defs w) \<and> reusable (computeds w c) = Some x \<longrightarrow>
          read c w = (Inr x, w))"
proof -
  have "read c w = (Inr x, w)" if "c < length (defs w)" and "reusable (computeds w c) = Some x"
    using that by (simp add: read_def evaluate.simps returned_def subscribe_def)
  then show ?thesis
    using assms by (auto simp: doubling_def doubled_def core_defs)
qed

theorem cached_memoizes_witness:
  "(6::int) \<noteq> 5
   \<and> fst (read 0 (doubling 5)) = Inr 10
   \<and> fst (read 0 (snd (read 0 (doubling 5)))) = Inr 10
   \<and> invocations (computeds (snd (read 0 (snd (read 0 (doubling 5))))) 0) = 1
   \<and> fst (read 0 (signal_set 0 5 (snd (read 0 (snd (read 0 (doubling 5))))))) = Inr 10
   \<and> invocations (computeds
        (snd (read 0 (signal_set 0 5 (snd (read 0 (snd (read 0 (doubling 5)))))))) 0) = 1
   \<and> fst (read 0 (signal_set 0 6
        (snd (read 0 (signal_set 0 5 (snd (read 0 (snd (read 0 (doubling 5)))))))))) = Inr 12
   \<and> invocations (computeds (snd (read 0 (signal_set 0 6
        (snd (read 0 (signal_set 0 5 (snd (read 0 (snd (read 0 (doubling 5))))))))))) 0) = 2
   \<and> 0 < length (defs (snd (read 0 (doubling 5))))
   \<and> reusable (computeds (snd (read 0 (doubling 5))) 0) = Some 10
   \<and> read 0 (snd (read 0 (doubling 5))) = (Inr 10, snd (read 0 (doubling 5)))"
proof -
  have h: "0 < length (defs (snd (read 0 (doubling 5))))
      \<and> reusable (computeds (snd (read 0 (doubling 5))) 0) = Some 10"
    by (simp add: doubling_def doubled_def core_defs)
  note th = cached_memoizes [where v' = 6 and v = 5 and c = 0
      and w = "snd (read 0 (doubling 5))" and x = 10,
      OF _ surjective_pairing surjective_pairing surjective_pairing surjective_pairing]
  have scenario: "(6::int) \<noteq> 5
     \<and> fst (read 0 (doubling 5)) = Inr 10
     \<and> fst (read 0 (snd (read 0 (doubling 5)))) = Inr 10
     \<and> invocations (computeds (snd (read 0 (snd (read 0 (doubling 5))))) 0) = 1
     \<and> fst (read 0 (signal_set 0 5 (snd (read 0 (snd (read 0 (doubling 5))))))) = Inr 10
     \<and> invocations (computeds
          (snd (read 0 (signal_set 0 5 (snd (read 0 (snd (read 0 (doubling 5)))))))) 0) = 1
     \<and> fst (read 0 (signal_set 0 6
          (snd (read 0 (signal_set 0 5 (snd (read 0 (snd (read 0 (doubling 5)))))))))) = Inr 12
     \<and> invocations (computeds (snd (read 0 (signal_set 0 6
          (snd (read 0 (signal_set 0 5 (snd (read 0 (snd (read 0 (doubling 5))))))))))) 0) = 2"
    using th by simp
  have "(6::int) \<noteq> 5" by simp
  then have clean: "read 0 (snd (read 0 (doubling 5))) = (Inr 10, snd (read 0 (doubling 5)))"
    using th h by blast
  from scenario clean h show ?thesis by blast
qed


subsection \<open>Primitive facts\<close>

lemma observed_schedule_flags:
  "cancelled (schedulers (snd (observed_schedule sid a w)) s) = cancelled (schedulers w s)"
  by (simp add: observed_schedule_def TestScheduler_schedule_def Let_def)


lemma same_flags_refl: "same_flags w w"
  by (simp add: same_flags_def)

lemma same_flags_trans: "same_flags w1 w2 \<Longrightarrow> same_flags w2 w3 \<Longrightarrow> same_flags w1 w3"
  by (simp add: same_flags_def)

lemma same_flags_enqueue: "same_flags w (enqueue_run e w)"
  by (auto simp: same_flags_def enqueue_run_def alive_def case_prod_beta
      observed_schedule_flags split: option.splits)

lemma same_flags_notify_consumer: "same_flags w (notify_consumer k w)"
  by (cases k) (simp_all add: same_flags_enqueue, simp add: same_flags_def alive_def)

lemma same_flags_notify: "same_flags w (notify ks w)"
  unfolding notify_def
proof (induction ks arbitrary: w)
  case Nil
  show ?case by (simp add: same_flags_refl)
next
  case (Cons k ks)
  show ?case
    using same_flags_trans [OF same_flags_notify_consumer Cons.IH] by simp
qed

lemma same_flags_eval: "same_flags w (snd (eval ds stack e w))"
proof (rule eval_lift(1) [where R = same_flags and Q = "\<lambda>k. True" and S = "\<lambda>stack. True"])
  show "same_flags w (snd (signal_get stack s w))" for stack s w
    by (simp add: signal_get_def same_flags_def alive_def split: option.splits)
  show "same_flags w (returned stack k w)" for stack k w
    by (simp add: returned_def same_flags_def alive_def)
  show "same_flags w (begin_evaluation k w)" for k w
    by (simp add: begin_evaluation_def unsubscribe_def Let_def same_flags_def alive_def)
  show "same_flags w (finish_evaluation k v w)" for k v w
  proof -
    have "same_flags w
        (w\<lparr>computeds := (computeds w)(k := (computeds w k)\<lparr>cached_value := Some v, dirty := False\<rparr>)\<rparr>)"
      by (simp add: same_flags_def alive_def)
    then show ?thesis
      by (auto simp: finish_evaluation_def Let_def intro: same_flags_trans same_flags_notify)
  qed
qed (auto intro: same_flags_refl same_flags_trans)

lemma settle_fields [simp]:
  "trace (settle t w) = trace w"
  "effects (settle t w) = effects w"
  "schedulers (settle t w) = schedulers w"
  "defs (settle t w) = defs w"
  "next_effect (settle t w) = next_effect w"
  by (simp_all add: settle_def Let_def)

lemma trace_eval [simp]: "trace (snd (eval ds stack e w)) = trace w"
  using same_flags_eval [of w ds stack e] by (simp add: same_flags_def)













subsection \<open>Registration\<close>





subsection \<open>A pending effect is left alone by the runs of the others\<close>












lemmas sched_defs = root_effect_def start_effect_def enqueue_run_def observed_schedule_def
  TestScheduler_schedule_def flush_def invoke_queued_def run_effect_def settle_def
  unsubscribe_def empty_world_def isStable_def runs_of_def spy_def Let_def

subsection \<open>The counter and the outstanding tickets\<close>




subsection \<open>Every world the operations reach is sound\<close>


























lemma next_effect_eval [simp]: "next_effect (snd (eval ds stack e w)) = next_effect w"
proof (rule eval_lift(1) [where R = "\<lambda>w w'. next_effect w' = next_effect w"
      and Q = "\<lambda>k. True" and S = "\<lambda>stack. True"])
  show "next_effect (snd (signal_get stack s w)) = next_effect w" for stack s w
    by (simp add: signal_get_def split: option.splits)
  show "next_effect (returned stack c w) = next_effect w" for stack c w
    by (simp add: returned_def)
  show "next_effect (begin_evaluation c w) = next_effect w" for c w
    by (simp add: begin_evaluation_def unsubscribe_def Let_def)
  show "next_effect (finish_evaluation c v w) = next_effect w" for c v w
    by (simp add: finish_evaluation_def Let_def)
qed simp_all



























text \<open>
  The model passes the two tests of the sources: after \<open>root.effect(effect)\<close> the
  tracker is not stable and the spy has not been called, and \<open>scheduler.flush()\<close> calls
  it once; with a scheduler of its own, flushing the default scheduler calls nothing and
  flushing the custom one calls the spy.
\<close>

lemma test_schedules_an_effect_on_the_root:
  "\<not> isStable test_default \<and> runs_of 0 test_default = 0 \<and> runs_of 0 (flush 0 test_default) = 1"
  by (simp add: test_default_def sched_defs)

lemma test_schedules_an_effect_with_the_provided_scheduler:
  "runs_of 0 test_custom = 0 \<and> runs_of 0 (flush 0 test_custom) = 0
   \<and> 0 < runs_of 0 (flush 1 (flush 0 test_custom))"
  by (simp add: test_custom_def sched_defs)








subsection \<open>The stability tracker\<close>



end
